theory Spec2Isabelle
  imports Main "HOL-Library.Word" "HOL-Library.Char_ord" "HOL-Library.List_Lexorder"
begin

unbundle bit_operations_syntax

section \<open>gobake: embedding of gobake.go\<close>

text \<open>
  Go strings and byte slices are byte sequences.  Generated text is a \<^typ>\<open>string\<close>
  (a list of 8-bit characters); a payload is a list of 8-bit words.
\<close>

type_synonym byte = "8 word"

abbreviation dq :: char where "dq \<equiv> CHR 0x22"
abbreviation nl :: char where "nl \<equiv> CHR 0x0A"
abbreviation tab :: char where "tab \<equiv> CHR 0x09"
abbreviation bsl :: char where "bsl \<equiv> CHR 0x5C"

subsection \<open>formatValue\<close>

definition hextable :: string where
  "hextable = ''0123456789abcdef''"

text \<open>The three writes of lines 119-121: backslash, x, high nibble, low nibble.\<close>

definition hexEscape :: "byte \<Rightarrow> string" where
  "hexEscape x = [bsl, CHR ''x'', hextable ! unat (drop_bit 4 x), hextable ! unat (x AND 0x0f)]"

text \<open>
  The loop of lines 112-131.  \<open>i\<close> is the loop index, \<open>s\<close> the contents of the
  string builder.  The guards are evaluated left to right as in the source, so
  \<open>i mod wrap\<close> is only looked at when \<open>wrap > 0\<close>.
\<close>

function formatLoop :: "int \<Rightarrow> int \<Rightarrow> string \<Rightarrow> byte list \<Rightarrow> nat \<Rightarrow> string \<Rightarrow> string" where
  "formatLoop wrap indent typ b i s =
     (if i < length b then
        formatLoop wrap indent typ b (Suc i)
          (s
           @ (if int (length b) > wrap \<and> wrap > 0 \<and> int i mod wrap = 0
              then replicate (nat indent) tab @ [dq] else [])
           @ hexEscape (b ! i)
           @ (if int i = int (length b) - 1
              then [dq] @ (if typ \<noteq> [] then '')'' else []) @ [nl]
              else if wrap > 0 \<and> int i mod wrap = wrap - 1
              then [dq] @ '' +'' @ [nl]
              else []))
      else s)"
  by pat_completeness auto
termination
  by (relation "measure (\<lambda>(wrap, indent, typ, b, i, s). length b - i)") auto

definition formatValue :: "int \<Rightarrow> int \<Rightarrow> string \<Rightarrow> byte list \<Rightarrow> string" where
  "formatValue wrap indent typ0 b =
     (let typ = (if typ0 = ''string'' then [] else typ0) in
      if length b = 0 then
        (if typ = [] then [dq, dq, nl] else typ @ ''('' @ [dq, dq] @ '')'' @ [nl])
      else
        formatLoop wrap indent typ b 0
          ((if typ \<noteq> [] then typ @ ''('' else [])
           @ (if wrap > 0 \<and> int (length b) > wrap then [dq, dq] @ '' +'' @ [nl] else [dq])))"

subsection \<open>Compressor\<close>

text \<open>
  The two implementations of the \<open>Compressor\<close> interface.  \<open>compress/gzip\<close> is a
  library outside this program: its writer is the parameter \<open>gz\<close>, the bytes that
  \<open>gzip.NewWriter\<close>, \<open>Write\<close> and \<open>Close\<close> leave in the builder.
\<close>

datatype compressor = NoCompressor | GzipCompressor

fun Encode :: "(byte list \<Rightarrow> byte list) \<Rightarrow> compressor \<Rightarrow> byte list \<Rightarrow> byte list" where
  "Encode gz NoCompressor b = b"
| "Encode gz GzipCompressor b = gz b"

fun compressorImports :: "compressor \<Rightarrow> string list" where
  "compressorImports NoCompressor = [''ioutil'', ''strings'']"
| "compressorImports GzipCompressor = [''gzip'', ''strings'']"

fun FuncDecoder :: "compressor \<Rightarrow> string \<Rightarrow> string" where
  "FuncDecoder NoCompressor v = ''return ioutil.NopCloser(strings.NewReader('' @ v @ ''))''"
| "FuncDecoder GzipCompressor v =
     ''gr, _ := gzip.NewReader(strings.NewReader('' @ v @ ''))'' @ [nl, tab] @ ''return gr''"

subsection \<open>Declaration\<close>

datatype decl = ConstDecl | VarDecl | FuncDecl

fun declarationImports :: "decl \<Rightarrow> string list" where
  "declarationImports ConstDecl = []"
| "declarationImports VarDecl = []"
| "declarationImports FuncDecl = [''io'']"

fun FormatDeclare ::
  "(byte list \<Rightarrow> byte list) \<Rightarrow> decl \<Rightarrow> byte list \<Rightarrow> string \<Rightarrow> string \<Rightarrow> compressor \<Rightarrow> string" where
  "FormatDeclare gz ConstDecl val name typ compress =
     ''const '' @ name @ '' = '' @ formatValue 16 1 typ (Encode gz compress val)"
| "FormatDeclare gz VarDecl val name typ compress =
     ''var '' @ name @ '' = '' @ formatValue 16 1 typ (Encode gz compress val)"
| "FormatDeclare gz FuncDecl val name typ compress =
     ''func '' @ name @ ''() io.ReadCloser {'' @ [nl, tab] @ ''const a = ''
     @ formatValue 16 2 typ (Encode gz compress val)
     @ [tab] @ FuncDecoder compress ''a'' @ [nl] @ ''}'' @ [nl]"

subsection \<open>getDeclName\<close>

text \<open>
  A rune is a code point.  The tables of package \<open>unicode\<close> are parameters.  The loop
  of lines 138-155 runs over the runes that \<open>range name\<close> yields, \<open>s\<close> is the rune
  slice built so far.
\<close>

type_synonym rune = int

record unicode =
  IsLetter :: "rune \<Rightarrow> bool"
  ToUpper :: "rune \<Rightarrow> rune"
  ToLower :: "rune \<Rightarrow> rune"

abbreviation underscore :: rune where "underscore \<equiv> 0x5F"

fun declNameLoop :: "unicode \<Rightarrow> bool \<Rightarrow> rune list \<Rightarrow> rune list \<Rightarrow> rune list" where
  "declNameLoop U export [] s = s"
| "declNameLoop U export (r # rs) s =
     declNameLoop U export rs
       (if IsLetter U r then
          (if length s = 0 then
             (if export then s @ [ToUpper U r] else s @ [ToLower U r])
           else s @ [r])
        else
          (if length s > 0 then s @ [underscore] else s))"

text \<open>
  Go strings are UTF-8 bytes. \<open>range name\<close> decodes one rune at a time and yields
  U+FFFD, advancing one byte, at an invalid sequence; \<open>string(s)\<close> encodes each rune,
  and U+FFFD for a value that is not a code point.
\<close>

definition seqLen :: "int \<Rightarrow> nat" where
  "seqLen b0 =
     (if 0xC2 \<le> b0 \<and> b0 \<le> 0xDF then 2
      else if 0xE0 \<le> b0 \<and> b0 \<le> 0xEF then 3
      else if 0xF0 \<le> b0 \<and> b0 \<le> 0xF4 then 4
      else 0)"

definition acceptLo :: "int \<Rightarrow> int" where
  "acceptLo b0 = (if b0 = 0xE0 then 0xA0 else if b0 = 0xF0 then 0x90 else 0x80)"

definition acceptHi :: "int \<Rightarrow> int" where
  "acceptHi b0 = (if b0 = 0xED then 0x9F else if b0 = 0xF4 then 0x8F else 0xBF)"

definition decodeTail :: "int \<Rightarrow> string \<Rightarrow> (rune \<times> nat) option" where
  "decodeTail b0 cs =
     (let n = seqLen b0 in
      if n = 0 \<or> length cs < n - 1 then None
      else
        let b1 = of_char (cs ! 0) :: int in
        if b1 < acceptLo b0 \<or> acceptHi b0 < b1 then None
        else if n = 2 then Some ((b0 mod 32) * 64 + b1 mod 64, 1)
        else
          let b2 = of_char (cs ! 1) :: int in
          if b2 < 0x80 \<or> 0xBF < b2 then None
          else if n = 3 then Some ((b0 mod 16) * 4096 + (b1 mod 64) * 64 + b2 mod 64, 2)
          else
            let b3 = of_char (cs ! 2) :: int in
            if b3 < 0x80 \<or> 0xBF < b3 then None
            else Some ((b0 mod 8) * 262144 + (b1 mod 64) * 4096 + (b2 mod 64) * 64 + b3 mod 64, 3))"

fun decodeRunes :: "string \<Rightarrow> rune list" where
  "decodeRunes [] = []"
| "decodeRunes (c0 # cs) =
     (if (of_char c0 :: int) < 0x80 then of_char c0 # decodeRunes cs
      else case decodeTail (of_char c0) cs of
             Some (r, n) \<Rightarrow> r # decodeRunes (drop n cs)
           | None \<Rightarrow> 0xFFFD # decodeRunes cs)"

definition encodeRune :: "rune \<Rightarrow> string" where
  "encodeRune r =
     (if r < 0 \<or> 0x10FFFF < r \<or> (0xD800 \<le> r \<and> r \<le> 0xDFFF) then [CHR 0xEF, CHR 0xBF, CHR 0xBD]
      else if r < 0x80 then [char_of r]
      else if r < 0x800 then [char_of (0xC0 + r div 64), char_of (0x80 + r mod 64)]
      else if r < 0x10000 then
        [char_of (0xE0 + r div 4096), char_of (0x80 + (r div 64) mod 64), char_of (0x80 + r mod 64)]
      else
        [char_of (0xF0 + r div 262144), char_of (0x80 + (r div 4096) mod 64),
         char_of (0x80 + (r div 64) mod 64), char_of (0x80 + r mod 64)])"

definition encodeRunes :: "rune list \<Rightarrow> string" where
  "encodeRunes rs = concat (map encodeRune rs)"

definition getDeclName :: "unicode \<Rightarrow> string \<Rightarrow> bool \<Rightarrow> string" where
  "getDeclName U name export = encodeRunes (declNameLoop U export (decodeRunes name) [])"

subsection \<open>main\<close>

text \<open>
  The flag values after \<open>flag.Parse\<close>, with the defaults of lines 171-178.
\<close>

record flags =
  Decl :: string
  Compress :: string
  Export :: bool
  Import :: string
  Name :: string
  Output :: string
  Package :: string
  Type :: string

definition defaultFlags :: flags where
  "defaultFlags = \<lparr>Decl = ''func'', Compress = [], Export = False, Import = [], Name = [],
     Output = [], Package = [], Type = ''string''\<rparr>"

text \<open>
  What main takes from other packages: the \<open>unicode\<close> tables, the gzip writer,
  \<open>build.ImportDir(filepath.Dir(output), 0)\<close> (\<open>None\<close> for an error, else the
  package name), \<open>filepath.Base\<close>, \<open>filepath.Ext\<close>, and the \<open>%#v\<close> rendering of a
  string.
\<close>

record env =
  Unicode :: unicode
  Gzip :: "byte list \<Rightarrow> byte list"
  ImportDirName :: "string \<Rightarrow> string option"
  Base :: "string \<Rightarrow> string"
  Ext :: "string \<Rightarrow> string"
  GoSyntax :: "string \<Rightarrow> string"

text \<open>Lines 190-202: the declaration, and \<open>flags.Type\<close> after the switch.\<close>

definition selectDeclaration :: "flags \<Rightarrow> decl" where
  "selectDeclaration f =
     (if Decl f = ''var'' then VarDecl
      else if Decl f = ''const'' then ConstDecl
      else FuncDecl)"

definition selectType :: "flags \<Rightarrow> string" where
  "selectType f =
     (if Decl f = ''var'' then Type f
      else if Decl f = ''const'' then []
      else [])"

text \<open>Lines 205-211.\<close>

definition selectCompressor :: "flags \<Rightarrow> compressor" where
  "selectCompressor f = (if Compress f = ''gzip'' then GzipCompressor else NoCompressor)"

text \<open>Lines 188, 203 and 212-214: the imports before the \<open>-import\<close> flag is looked at.\<close>

definition collectImports :: "decl \<Rightarrow> compressor \<Rightarrow> string list" where
  "collectImports d c =
     [] @ declarationImports d @ (if d = FuncDecl then compressorImports c else [])"

text \<open>Lines 216-219. \<open>sort.Strings\<close> sorts in increasing byte-wise order.\<close>

definition mainImports :: "flags \<Rightarrow> string list" where
  "mainImports f =
     sort (collectImports (selectDeclaration f) (selectCompressor f)
           @ (if Import f \<noteq> [] then [Import f] else []))"

text \<open>Lines 221-232.\<close>

definition packageName :: "env \<Rightarrow> flags \<Rightarrow> string" where
  "packageName E f =
     (if Package f = [] then
        (if Output f = [] then ''main''
         else case ImportDirName E (Output f) of
                None \<Rightarrow> ''main''
              | Some n \<Rightarrow> if n = [] then ''main'' else n)
      else Package f)"

text \<open>Lines 234-249; \<open>args\<close> is \<open>os.Args[1:]\<close>.\<close>

definition importBlock :: "env \<Rightarrow> string list \<Rightarrow> string" where
  "importBlock E imports =
     (if length imports > 0 then
        ''import ('' @ [nl] @ concat (map (\<lambda>imp. [tab] @ GoSyntax E imp @ [nl]) imports)
        @ '')'' @ [nl, nl]
      else [])"

definition header :: "env \<Rightarrow> flags \<Rightarrow> string list \<Rightarrow> string" where
  "header E f args =
     ''// File generated by '' @ [dq] @ ''gobake'' @ concat (map (\<lambda>a. '' '' @ a) args)
     @ [dq, nl] @ ''// DO NOT EDIT!'' @ [nl, nl] @ ''package '' @ packageName E f @ [nl, nl]
     @ importBlock E (mainImports f)"

text \<open>
  Lines 251-268: the input is standard input or the file \<open>flag.Arg(0)\<close>; \<open>None\<close>
  stands for a failed read, which is fatal.
\<close>

datatype input = Stdin "byte list option" | File string "byte list option"

datatype error = ReadStdin | ReadFile

definition readInput :: "input \<Rightarrow> error + byte list" where
  "readInput inp =
     (case inp of
        Stdin None \<Rightarrow> Inl ReadStdin
      | Stdin (Some b) \<Rightarrow> Inr b
      | File path None \<Rightarrow> Inl ReadFile
      | File path (Some b) \<Rightarrow> Inr b)"

definition defaultName :: "env \<Rightarrow> flags \<Rightarrow> input \<Rightarrow> string" where
  "defaultName E f inp =
     (case inp of
        Stdin r \<Rightarrow> (if Name f = [] then ''stdin'' else Name f)
      | File path r \<Rightarrow>
          (if Name f = [] then
             (let name = Base E path in take (length name - length (Ext E name)) name)
           else Name f))"

text \<open>Lines 159-271: the text that main hands to the output.\<close>

definition generate :: "env \<Rightarrow> flags \<Rightarrow> string list \<Rightarrow> input \<Rightarrow> error + string" where
  "generate E f args inp =
     (case readInput inp of
        Inl e \<Rightarrow> Inl e
      | Inr b \<Rightarrow>
          Inr (header E f args
               @ FormatDeclare (Gzip E) (selectDeclaration f) b
                   (getDeclName (Unicode E) (defaultName E f inp) (Export f))
                   (selectType f) (selectCompressor f)))"

subsection \<open>The layout of a formatted value\<close>

text \<open>
  The vocabulary in which the properties of \<open>formatValue\<close> are stated: the escape
  of a byte sequence, its chunks of a given width, a quoted literal, literals joined by
  the concatenation operator, and a conversion call.
\<close>

definition escape :: "byte list \<Rightarrow> string" where
  "escape b = concat (map hexEscape b)"

function chunks :: "nat \<Rightarrow> 'a list \<Rightarrow> 'a list list" where
  "chunks n xs = (if n = 0 \<or> xs = [] then [] else take n xs # chunks n (drop n xs))"
  by pat_completeness auto
termination
  by (relation "measure (\<lambda>(n, xs). length xs)") auto

definition quoted :: "string \<Rightarrow> string" where
  "quoted s = [dq] @ s @ [dq]"

fun joinPlus :: "string list \<Rightarrow> string" where
  "joinPlus [] = []"
| "joinPlus [l] = l"
| "joinPlus (l # ls) = l @ '' +'' @ [nl] @ joinPlus ls"

definition chunkLine :: "int \<Rightarrow> byte list \<Rightarrow> string" where
  "chunkLine indent c = replicate (nat indent) tab @ quoted (escape c)"

definition literals :: "int \<Rightarrow> int \<Rightarrow> byte list \<Rightarrow> string list" where
  "literals wrap indent b =
     (if wrap > 0 \<and> int (length b) > wrap
      then [dq, dq] # map (chunkLine indent) (chunks (nat wrap) b)
      else [quoted (escape b)])"

definition convert :: "string \<Rightarrow> string \<Rightarrow> string" where
  "convert typ e = (if typ = [] \<or> typ = ''string'' then e else typ @ ''('' @ e @ '')'')"

text \<open>
  The layout the specification describes for a wrapped value: the first chunk opens the
  literal on the line of the declaration, and only the chunks after it start a new,
  indented line.
\<close>

definition specLiterals :: "int \<Rightarrow> int \<Rightarrow> byte list \<Rightarrow> string list" where
  "specLiterals wrap indent b =
     (if wrap > 0 \<and> int (length b) > wrap
      then (case chunks (nat wrap) b of
              [] \<Rightarrow> []
            | c # cs \<Rightarrow> quoted (escape c) # map (chunkLine indent) cs)
      else [quoted (escape b)])"

subsection \<open>The shape of a sanitized name\<close>

text \<open>
  What \<open>getDeclName\<close> makes of the runes of a name: the runes in front of the first
  letter are dropped, the first letter is mapped to upper or lower case, and behind it a
  letter is kept and every other rune becomes an underscore.
\<close>

definition keepRune :: "unicode \<Rightarrow> rune \<Rightarrow> rune" where
  "keepRune U c = (if IsLetter U c then c else underscore)"

definition sanitized :: "unicode \<Rightarrow> rune list \<Rightarrow> bool \<Rightarrow> rune list" where
  "sanitized U rs export =
     (case dropWhile (\<lambda>r. \<not> IsLetter U r) rs of
        [] \<Rightarrow> []
      | r # rest \<Rightarrow> (if export then ToUpper U r else ToLower U r) # map (keepRune U) rest)"

text \<open>
  The reading of the specification: behind the first letter a whole run of other runes
  becomes one underscore.  \<open>inRun\<close> says that the rune before was not a letter.
\<close>

fun collapseRuns :: "unicode \<Rightarrow> bool \<Rightarrow> rune list \<Rightarrow> rune list" where
  "collapseRuns U inRun [] = []"
| "collapseRuns U inRun (c # cs) =
     (if IsLetter U c then c # collapseRuns U False cs
      else if inRun then collapseRuns U True cs
      else underscore # collapseRuns U True cs)"

definition specSanitized :: "unicode \<Rightarrow> rune list \<Rightarrow> bool \<Rightarrow> rune list" where
  "specSanitized U rs export =
     (case dropWhile (\<lambda>r. \<not> IsLetter U r) rs of
        [] \<Rightarrow> []
      | r # rest \<Rightarrow> (if export then ToUpper U r else ToLower U r) # collapseRuns U False rest)"

text \<open>
  The tables of package \<open>unicode\<close> on the ASCII runes, where the letters are A-Z and
  a-z; an instance for evaluating names written in ASCII.
\<close>

definition asciiTables :: unicode where
  "asciiTables =
     \<lparr>IsLetter = (\<lambda>r. (0x41 \<le> r \<and> r \<le> 0x5A) \<or> (0x61 \<le> r \<and> r \<le> 0x7A)),
      ToUpper = (\<lambda>r. if 0x61 \<le> r \<and> r \<le> 0x7A then r - 0x20 else r),
      ToLower = (\<lambda>r. if 0x41 \<le> r \<and> r \<le> 0x5A then r + 0x20 else r)\<rparr>"

text \<open>
  An environment for evaluating \<open>main\<close> on ASCII names: the ASCII tables, no package
  found beside the output file, paths that are bare file names without extension, and
  names that \<open>%#v\<close> quotes as they are.  The gzip writer is not modelled; the identity
  stands in its place and is never called without \<open>-compress gzip\<close>.
\<close>

definition plainEnv :: env where
  "plainEnv =
     \<lparr>Unicode = asciiTables, Gzip = (\<lambda>b. b), ImportDirName = (\<lambda>dir. None),
      Base = (\<lambda>path. path), Ext = (\<lambda>name. []), GoSyntax = (\<lambda>s. [dq] @ s @ [dq])\<rparr>"

subsection \<open>Reading the generated text\<close>

text \<open>
  What it means for generated text to be balanced and to reference a package is fixed by
  a small lexer for the Go text that this program writes: interpreted string literals
  with backslash escapes, parentheses, identifiers, and qualified identifiers
  \<open>pkg.Name\<close>.  Outside a string literal an identifier directly in front of a dot, and
  not itself behind a dot, is a package reference.
\<close>

record lexer =
  inString :: bool
  escaped :: bool
  depth :: nat
  unbalanced :: bool
  ident :: string
  selector :: bool
  refs :: "string list"

definition isIdentChar :: "char \<Rightarrow> bool" where
  "isIdentChar c =
     (let n = of_char c :: nat in
      (0x30 \<le> n \<and> n \<le> 0x39) \<or> (0x41 \<le> n \<and> n \<le> 0x5A) \<or> n = 0x5F
      \<or> (0x61 \<le> n \<and> n \<le> 0x7A) \<or> 0x80 \<le> n)"

definition lexStep :: "lexer \<Rightarrow> char \<Rightarrow> lexer" where
  "lexStep st c =
     (if inString st then
        (if escaped st then st\<lparr>escaped := False\<rparr>
         else if c = bsl then st\<lparr>escaped := True\<rparr>
         else if c = dq then st\<lparr>inString := False\<rparr>
         else st)
      else if c = dq then st\<lparr>inString := True, ident := [], selector := False\<rparr>
      else if c = CHR ''('' then st\<lparr>depth := Suc (depth st), ident := [], selector := False\<rparr>
      else if c = CHR '')'' then
        (if depth st = 0 then st\<lparr>unbalanced := True, ident := [], selector := False\<rparr>
         else st\<lparr>depth := depth st - 1, ident := [], selector := False\<rparr>)
      else if isIdentChar c then st\<lparr>ident := ident st @ [c]\<rparr>
      else if c = CHR ''.'' then
        st\<lparr>ident := [], selector := True,
           refs := (if ident st \<noteq> [] \<and> \<not> selector st then refs st @ [ident st] else refs st)\<rparr>
      else st\<lparr>ident := [], selector := False\<rparr>)"

definition lexInit :: lexer where
  "lexInit = \<lparr>inString = False, escaped = False, depth = 0, unbalanced = False,
              ident = [], selector = False, refs = []\<rparr>"

definition lex :: "string \<Rightarrow> lexer" where
  "lex s = foldl lexStep lexInit s"

definition balanced :: "string \<Rightarrow> bool" where
  "balanced s = (let st = lex s in \<not> inString st \<and> depth st = 0 \<and> \<not> unbalanced st)"

definition pkgRefs :: "string \<Rightarrow> string list" where
  "pkgRefs s = refs (lex s)"

text \<open>The lexer state behind a token that ends an identifier.\<close>

definition reset :: "lexer \<Rightarrow> lexer" where
  "reset st = st\<lparr>ident := [], selector := False\<rparr>"

text \<open>The pieces the loop of \<open>formatValue\<close> writes in one iteration.\<close>

definition closing :: "string \<Rightarrow> string" where
  "closing ty = [dq] @ (if ty \<noteq> [] then '')'' else []) @ [nl]"

definition loopBody :: "int \<Rightarrow> int \<Rightarrow> string \<Rightarrow> byte list \<Rightarrow> nat \<Rightarrow> string" where
  "loopBody wrap indent ty b i =
     (if int (length b) > wrap \<and> wrap > 0 \<and> int i mod wrap = 0
      then replicate (nat indent) tab @ [dq] else [])
     @ hexEscape (b ! i)
     @ (if Suc i = length b then closing ty
        else if wrap > 0 \<and> int i mod wrap = wrap - 1 then [dq] @ '' +'' @ [nl]
        else [])"


section \<open>Properties\<close>

subsection \<open>The loop of formatValue\<close>

declare formatLoop.simps [simp del]
declare chunks.simps [simp del]

lemma formatLoop_done: "\<not> i < length b \<Longrightarrow> formatLoop wrap indent typ b i s = s"
  by (subst formatLoop.simps) simp

lemma formatLoop_unfold:
  "i < length b \<Longrightarrow>
   formatLoop wrap indent ty b i s = formatLoop wrap indent ty b (Suc i) (s @ loopBody wrap indent ty b i)"
  by (subst formatLoop.simps) (auto simp: loopBody_def closing_def)

lemma formatLoop_acc: "formatLoop wrap indent ty b i s = s @ formatLoop wrap indent ty b i []"
proof (induction "length b - i" arbitrary: i s)
  case 0
  then show ?case by (simp add: formatLoop_done)
next
  case (Suc k)
  then have lt: "i < length b" and k: "k = length b - Suc i" by simp_all
  have "formatLoop wrap indent ty b i s
        = (s @ loopBody wrap indent ty b i) @ formatLoop wrap indent ty b (Suc i) []"
    using Suc.hyps(1)[OF k, of "s @ loopBody wrap indent ty b i"]
    by (simp add: formatLoop_unfold[OF lt])
  moreover have "formatLoop wrap indent ty b i []
        = loopBody wrap indent ty b i @ formatLoop wrap indent ty b (Suc i) []"
    using Suc.hyps(1)[OF k, of "loopBody wrap indent ty b i"] by (simp add: formatLoop_unfold[OF lt])
  ultimately show ?case by simp
qed

lemma formatLoop_step:
  "i < length b \<Longrightarrow>
   formatLoop wrap indent ty b i [] = loopBody wrap indent ty b i @ formatLoop wrap indent ty b (Suc i) []"
  using formatLoop_acc[of wrap indent ty b "Suc i" "loopBody wrap indent ty b i"]
    formatLoop_unfold[of i b wrap indent ty "[]"]
  by simp

lemma drop_last1: "Suc i = length b \<Longrightarrow> drop i b = [b ! i]"
  by (metis Cons_nth_drop_Suc drop_all lessI order_refl)

lemma formatLoop_nowrap:
  "\<not> (wrap > 0 \<and> int (length b) > wrap) \<Longrightarrow> i < length b \<Longrightarrow>
   formatLoop wrap indent ty b i [] = escape (drop i b) @ closing ty"
proof (induction "length b - i" arbitrary: i)
  case 0
  then show ?case by simp
next
  case (Suc k)
  show ?case
  proof (cases "Suc i = length b")
    case True
    with Suc.prems show ?thesis
      by (simp add: formatLoop_step formatLoop_done escape_def drop_last1 loopBody_def)
  next
    case False
    then have lt: "Suc i < length b" using Suc.prems by simp
    have k: "k = length b - Suc i" using Suc.hyps by simp
    have d: "drop i b = b ! i # drop (Suc i) b"
      using Suc.prems(2) by (simp add: Cons_nth_drop_Suc)
    have nw: "\<not> (wrap > 0 \<and> int i mod wrap = wrap - 1)"
    proof
      assume a: "wrap > 0 \<and> int i mod wrap = wrap - 1"
      with Suc.prems(1) have "int (length b) \<le> wrap" by simp
      with lt have "int i < wrap - 1" by simp
      with a show False by simp
    qed
    have lb: "loopBody wrap indent ty b i = hexEscape (b ! i)"
      using Suc.prems(1) False nw by (auto simp: loopBody_def)
    show ?thesis
      using Suc.hyps(1)[OF k Suc.prems(1) lt]
      by (simp add: formatLoop_step[OF Suc.prems(2)] lb d escape_def)
  qed
qed


lemma loopBody_wrap:
  assumes "0 < W" "W < length b" "i < length b"
  shows "loopBody (int W) indent ty b i =
     (if i mod W = 0 then replicate (nat indent) tab @ [dq] else [])
     @ hexEscape (b ! i)
     @ (if Suc i = length b then closing ty
        else if Suc (i mod W) = W then [dq] @ '' +'' @ [nl]
        else [])"
proof -
  have m: "int i mod int W = int (i mod W)" by (simp add: zmod_int)
  have e: "(int (i mod W) = int W - 1) = (Suc (i mod W) = W)" using assms(1) by auto
  show ?thesis using assms by (simp add: loopBody_def m e)
qed

lemma formatLoop_chunk:
  assumes "0 < W" "W < length b"
  shows "i < length b \<Longrightarrow>
   formatLoop (int W) indent ty b i [] =
     (if i mod W = 0 then replicate (nat indent) tab @ [dq] else [])
     @ escape (take (W - i mod W) (drop i b))
     @ (if length b \<le> i + (W - i mod W) then closing ty
        else [dq] @ '' +'' @ [nl] @ formatLoop (int W) indent ty b (i + (W - i mod W)) [])"
proof (induction "W - i mod W" arbitrary: i)
  case 0
  then show ?case using mod_less_divisor[OF assms(1), of i] by simp
next
  case (Suc k)
  have d: "drop i b = b ! i # drop (Suc i) b"
    using Suc.prems by (simp add: Cons_nth_drop_Suc)
  have st: "formatLoop (int W) indent ty b i [] =
      loopBody (int W) indent ty b i @ formatLoop (int W) indent ty b (Suc i) []"
    by (rule formatLoop_step[OF Suc.prems])
  note lb = loopBody_wrap[OF assms Suc.prems, of indent ty]
  show ?case
  proof (cases "Suc i = length b")
    case True
    then have "drop (Suc i) b = []" by simp
    with True Suc.hyps(2)[symmetric] show ?thesis
      by (simp add: st lb d escape_def formatLoop_done)
  next
    case False
    then have lt: "Suc i < length b" using Suc.prems by simp
    show ?thesis
    proof (cases k)
      case 0
      then have w: "Suc (i mod W) = W" using Suc.hyps(2) by simp
      then have "W - i mod W = Suc 0" by simp
      with False w lt show ?thesis
        by (simp add: st lb d escape_def)
    next
      case (Suc k')
      then have nw: "Suc (i mod W) \<noteq> W" "Suc (i mod W) < W" using Suc.hyps(2) by simp_all
      then have sm: "Suc i mod W = Suc (i mod W)" by (simp add: mod_Suc)
      then have k: "k = W - Suc i mod W" using Suc.hyps(2) by simp
      have ih: "formatLoop (int W) indent ty b (Suc i) [] =
         escape (take k (drop (Suc i) b))
         @ (if length b \<le> Suc i + k then closing ty
            else [dq] @ '' +'' @ [nl] @ formatLoop (int W) indent ty b (Suc i + k) [])"
        using Suc.hyps(1)[OF k lt] sm k by simp
      show ?thesis
        using False nw Suc.hyps(2)[symmetric]
        by (simp add: st lb d escape_def ih)
    qed
  qed
qed

lemma joinPlus_Cons: "ls \<noteq> [] \<Longrightarrow> joinPlus (l # ls) = l @ '' +'' @ [nl] @ joinPlus ls"
  by (cases ls) simp_all

lemma formatLoop_chunks:
  assumes "0 < W" "W < length b"
  shows "i < length b \<Longrightarrow> i mod W = 0 \<Longrightarrow>
   formatLoop (int W) indent ty b i [] =
     joinPlus (map (chunkLine indent) (chunks W (drop i b))) @ (if ty \<noteq> [] then '')'' else []) @ [nl]"
proof (induction "length b - i" arbitrary: i rule: less_induct)
  case less
  have c: "formatLoop (int W) indent ty b i [] =
     replicate (nat indent) tab @ [dq] @ escape (take W (drop i b))
     @ (if length b \<le> i + W then closing ty
        else [dq] @ '' +'' @ [nl] @ formatLoop (int W) indent ty b (i + W) [])"
    using formatLoop_chunk[OF assms less.prems(1), of indent ty] less.prems(2) by simp
  have ne: "drop i b \<noteq> []" using less.prems(1) by simp
  show ?case
  proof (cases "length b \<le> i + W")
    case True
    then have "chunks W (drop i b) = [drop i b]"
      using assms(1) ne by (subst chunks.simps) (simp add: chunks.simps)
    with True show ?thesis
      by (simp add: c chunkLine_def quoted_def closing_def)
  next
    case False
    then have lt: "i + W < length b" by simp
    have m: "(i + W) mod W = 0" using less.prems(2) by simp
    have ch: "chunks W (drop i b) = take W (drop i b) # chunks W (drop (i + W) b)"
      using assms(1) ne by (subst chunks.simps) (simp add: add.commute)
    have ne2: "chunks W (drop (i + W) b) \<noteq> []"
      using assms(1) lt by (subst chunks.simps) simp
    have ih: "formatLoop (int W) indent ty b (i + W) [] =
       joinPlus (map (chunkLine indent) (chunks W (drop (i + W) b))) @ (if ty \<noteq> [] then '')'' else []) @ [nl]"
      using less.hyps[OF _ lt m] assms(1) lt by simp
    show ?thesis
      using False ne2
      by (simp add: c ch ih joinPlus_Cons chunkLine_def quoted_def)
  qed
qed

lemma formatValue_nonempty:
  "b \<noteq> [] \<Longrightarrow> formatValue wrap indent ty b =
     (if ty \<noteq> [] \<and> ty \<noteq> ''string'' then ty @ ''('' else [])
     @ (if wrap > 0 \<and> int (length b) > wrap then [dq, dq] @ '' +'' @ [nl] else [dq])
     @ formatLoop wrap indent (if ty = ''string'' then [] else ty) b 0 []"
  unfolding formatValue_def Let_def
  by (subst formatLoop_acc) auto

lemma formatValue_literals:
  "formatValue wrap indent ty b = convert ty (joinPlus (literals wrap indent b)) @ [nl]"
proof (cases "b = []")
  case True
  then show ?thesis
    by (auto simp: formatValue_def convert_def literals_def quoted_def escape_def)
next
  case False
  then have pos: "0 < length b" by simp
  show ?thesis
  proof (cases "wrap > 0 \<and> int (length b) > wrap")
    case True
    then have W: "0 < nat wrap" "nat wrap < length b" "int (nat wrap) = wrap" by auto
    have ne: "chunks (nat wrap) b \<noteq> []"
      using W(1) False by (subst chunks.simps) simp
    have "formatLoop wrap indent (if ty = ''string'' then [] else ty) b 0 [] =
       joinPlus (map (chunkLine indent) (chunks (nat wrap) b))
       @ (if (if ty = ''string'' then [] else ty) \<noteq> [] then '')'' else []) @ [nl]"
      using formatLoop_chunks[OF W(1,2) pos, of indent "if ty = ''string'' then [] else ty"] W(3)
      by simp
    then show ?thesis
      using True ne
      by (simp add: formatValue_nonempty[OF False] convert_def literals_def joinPlus_Cons)
  next
    case nw: False
    have "formatLoop wrap indent (if ty = ''string'' then [] else ty) b 0 [] =
       escape b @ closing (if ty = ''string'' then [] else ty)"
      using formatLoop_nowrap[OF nw pos, of indent] by simp
    then show ?thesis
      using nw
      by (auto simp: formatValue_nonempty[OF False] convert_def literals_def quoted_def closing_def)
  qed
qed

subsection \<open>The end of a formatted value\<close>

lemma joinPlus_nonempty: "ls \<noteq> [] \<Longrightarrow> last ls \<noteq> [] \<Longrightarrow> joinPlus ls \<noteq> []"
  by (induction ls rule: joinPlus.induct) auto

lemma joinPlus_last: "ls \<noteq> [] \<Longrightarrow> last ls \<noteq> [] \<Longrightarrow> last (joinPlus ls) = last (last ls)"
  by (induction ls rule: joinPlus.induct) (auto simp: joinPlus_nonempty)

lemma literals_nonempty: "literals wrap indent b \<noteq> []"
  by (simp add: literals_def)

lemma literals_last:
  "last (literals wrap indent b) \<noteq> [] \<and> last (last (literals wrap indent b)) = dq"
  by (cases "chunks (nat wrap) b = []")
     (auto simp: literals_def quoted_def chunkLine_def last_map)

lemma convert_last:
  "e \<noteq> [] \<Longrightarrow> last e = dq \<Longrightarrow> convert ty e \<noteq> [] \<and> last (convert ty e) \<noteq> nl"
  by (auto simp: convert_def)

text \<open>
  C10: for every payload, wrap width and type name, the output of \<open>formatValue\<close> ends
  with exactly one newline: its last character is a newline and the character before it
  exists and is not a newline.
\<close>

theorem formatValue_ends_with_one_newline:
  "formatValue wrap indent ty b = butlast (formatValue wrap indent ty b) @ [nl]
   \<and> butlast (formatValue wrap indent ty b) \<noteq> []
   \<and> last (butlast (formatValue wrap indent ty b)) \<noteq> nl"
proof -
  let ?e = "joinPlus (literals wrap indent b)"
  have e: "?e \<noteq> []" "last ?e = dq"
    using literals_last[of wrap indent b] literals_nonempty[of wrap indent b]
    by (simp_all add: joinPlus_nonempty joinPlus_last)
  have "butlast (formatValue wrap indent ty b) = convert ty ?e"
    by (simp add: formatValue_literals)
  with convert_last[OF e, of ty] show ?thesis
    by (simp add: formatValue_literals)
qed


subsection \<open>Type names\<close>

lemma formatValue_untyped:
  "butlast (formatValue wrap indent [] b) = joinPlus (literals wrap indent b)"
  by (simp add: formatValue_literals convert_def)

text \<open>
  C8: \<open>main\<close> passes the \<open>-type\<close> flag on only for the var declaration and the empty
  type name for const and func; \<open>formatValue\<close> wraps the whole literal expression, empty
  or not, in a conversion \<open>typ(...)\<close> exactly when the type name is neither empty nor
  \<open>string\<close>.
\<close>

theorem type_name_conversion:
  "selectType f = (if selectDeclaration f = VarDecl then Type f else [])
   \<and> formatValue wrap indent ty b =
       (if ty = [] \<or> ty = ''string''
        then butlast (formatValue wrap indent [] b) @ [nl]
        else ty @ ''('' @ butlast (formatValue wrap indent [] b) @ '')'' @ [nl])"
proof -
  have "selectType f = (if selectDeclaration f = VarDecl then Type f else [])"
    by (simp add: selectType_def selectDeclaration_def)
  moreover have "formatValue wrap indent ty b =
       (if ty = [] \<or> ty = ''string''
        then butlast (formatValue wrap indent [] b) @ [nl]
        else ty @ ''('' @ butlast (formatValue wrap indent [] b) @ '')'' @ [nl])"
    unfolding formatValue_untyped
    by (simp add: formatValue_literals convert_def)
  ultimately show ?thesis by (rule conjI)
qed

subsection \<open>Wrapping\<close>

lemma chunks_Nil: "chunks n [] = []"
  by (subst chunks.simps) simp

lemma chunks_step: "0 < n \<Longrightarrow> xs \<noteq> [] \<Longrightarrow> chunks n xs = take n xs # chunks n (drop n xs)"
  by (subst chunks.simps) simp

lemma concat_chunks: "0 < n \<Longrightarrow> concat (chunks n xs) = xs"
proof (induction n xs rule: chunks.induct)
  case (1 n xs)
  then show ?case
    by (cases "xs = []") (simp_all add: chunks_Nil chunks_step)
qed

lemma length_chunks:
  "0 < n \<Longrightarrow> map length (chunks n xs) =
     replicate (length xs div n) n @ (if n dvd length xs then [] else [length xs mod n])"
proof (induction n xs rule: chunks.induct)
  case (1 n xs)
  show ?case
  proof (cases "xs = []")
    case True
    then show ?thesis by (simp add: chunks_Nil)
  next
    case False
    show ?thesis
    proof (cases "length xs < n")
      case True
      then have "\<not> n dvd length xs" using False by (auto dest: dvd_imp_le)
      with True False "1.prems" show ?thesis
        by (simp add: chunks_step chunks_Nil)
    next
      case ge: False
      then have le: "n \<le> length xs" by simp
      have d: "length xs div n = Suc ((length xs - n) div n)"
        using le "1.prems" by (simp add: le_div_geq)
      have m: "(length xs - n) mod n = length xs mod n"
        using le by (simp add: le_mod_geq)
      have dv: "n dvd (length xs - n) \<longleftrightarrow> n dvd length xs"
        using le by (simp add: dvd_minus_self)
      show ?thesis
        using "1.IH" "1.prems" False le
        by (simp add: chunks_step d m dv min_absorb2)
    qed
  qed
qed


text \<open>
  C4 (as the code has it): with \<open>wrap \<le> 0\<close> or a payload no longer than \<open>wrap\<close> the
  whole escaped sequence is one quoted literal.  Otherwise the value is the empty literal
  followed by \<open>+\<close> and a newline, and then the escaped bytes in chunks of \<open>wrap\<close> bytes
  (the last one holds what remains), every chunk, the first included, a quoted literal on
  a line of its own behind \<open>indent\<close> tabs, the lines joined by \<open>+\<close>.  A payload of 33
  bytes at width 16 gives chunks of 16, 16 and 1 bytes.
\<close>

theorem formatValue_wrapping:
  "(wrap \<le> 0 \<or> int (length b) \<le> wrap \<longrightarrow>
      formatValue wrap indent ty b = convert ty (quoted (escape b)) @ [nl])
   \<and> (0 < wrap \<and> wrap < int (length b) \<longrightarrow>
      formatValue wrap indent ty b =
        convert ty ([dq, dq] @ '' +'' @ [nl]
                    @ joinPlus (map (chunkLine indent) (chunks (nat wrap) b))) @ [nl]
      \<and> concat (chunks (nat wrap) b) = b
      \<and> map length (chunks (nat wrap) b) =
          replicate (length b div nat wrap) (nat wrap)
          @ (if nat wrap dvd length b then [] else [length b mod nat wrap]))
   \<and> (length b = 33 \<longrightarrow> map length (chunks 16 b) = [16, 16, 1])"
proof (intro conjI impI)
  assume "wrap \<le> 0 \<or> int (length b) \<le> wrap"
  then have "\<not> (wrap > 0 \<and> int (length b) > wrap)" by auto
  then show "formatValue wrap indent ty b = convert ty (quoted (escape b)) @ [nl]"
    by (auto simp: formatValue_literals literals_def)
next
  assume w: "0 < wrap \<and> wrap < int (length b)"
  then have "b \<noteq> []" "0 < nat wrap" by auto
  then have ne: "chunks (nat wrap) b \<noteq> []" by (simp add: chunks_step)
  show "formatValue wrap indent ty b =
        convert ty ([dq, dq] @ '' +'' @ [nl]
                    @ joinPlus (map (chunkLine indent) (chunks (nat wrap) b))) @ [nl]"
    using w ne by (simp add: formatValue_literals literals_def joinPlus_Cons)
  show "concat (chunks (nat wrap) b) = b"
    using w by (simp add: concat_chunks)
  show "map length (chunks (nat wrap) b) =
          replicate (length b div nat wrap) (nat wrap)
          @ (if nat wrap dvd length b then [] else [length b mod nat wrap])"
    using w by (simp add: length_chunks)
next
  assume l: "length b = 33"
  have r: "replicate 2 (16::nat) = [16, 16]" by (simp add: numeral_2_eq_2)
  have "map length (chunks 16 b) =
          replicate (length b div 16) 16 @ (if 16 dvd length b then [] else [length b mod 16])"
    by (rule length_chunks) simp
  then show "map length (chunks 16 b) = [16, 16, 1]"
    by (simp add: l r)
qed

theorem formatValue_wrapping_witness:
  "((16::int) \<le> 0 \<or> int (length [0x68, 0x69 :: byte]) \<le> 16)
   \<and> formatValue 16 1 [] [0x68, 0x69] = convert [] (quoted (escape [0x68, 0x69])) @ [nl]
   \<and> ((0::int) < 16 \<and> 16 < int (length (replicate 33 (0::byte))))
   \<and> formatValue 16 1 [] (replicate 33 0) =
        convert [] ([dq, dq] @ '' +'' @ [nl]
                    @ joinPlus (map (chunkLine 1) (chunks (nat 16) (replicate 33 0)))) @ [nl]
   \<and> length (replicate 33 (0::byte)) = 33
   \<and> map length (chunks 16 (replicate 33 (0::byte))) = [16, 16, 1]"
proof -
  have h1: "(16::int) \<le> 0 \<or> int (length [0x68, 0x69 :: byte]) \<le> 16" by simp
  have h2: "(0::int) < 16 \<and> 16 < int (length (replicate 33 (0::byte)))" by simp
  have h3: "length (replicate 33 (0::byte)) = 33" by simp
  note t1 = formatValue_wrapping[where wrap = 16 and b = "[0x68, 0x69]" and indent = 1 and ty = "[]"]
  note t2 = formatValue_wrapping[where wrap = 16 and b = "replicate 33 0" and indent = 1 and ty = "[]"]
  from t1 h1 have c1: "formatValue 16 1 [] [0x68, 0x69] = convert [] (quoted (escape [0x68, 0x69])) @ [nl]"
    by blast
  from t2 h2 have c2: "formatValue 16 1 [] (replicate 33 0) =
        convert [] ([dq, dq] @ '' +'' @ [nl]
                    @ joinPlus (map (chunkLine 1) (chunks (nat 16) (replicate 33 0)))) @ [nl]"
    by blast
  from t2 h3 have c3: "map length (chunks 16 (replicate 33 (0::byte))) = [16, 16, 1]"
    by blast
  from h1 h2 h3 c1 c2 c3 show ?thesis by blast
qed

text \<open>
  C4 as the specification words it fails: at width 2 the three bytes 1, 2, 3 do not start
  with the first chunk on the line of the declaration, but with an empty literal, and the
  first chunk is on an indented line of its own.
\<close>

theorem formatValue_first_chunk_counterexample:
  "formatValue 2 1 [] [1, 2, 3] =
     [dq, dq] @ '' +'' @ [nl]
     @ [tab, dq, bsl] @ ''x01'' @ [bsl] @ ''x02'' @ [dq] @ '' +'' @ [nl]
     @ [tab, dq, bsl] @ ''x03'' @ [dq, nl]
   \<and> formatValue 2 1 [] [1, 2, 3] \<noteq> convert [] (joinPlus (specLiterals 2 1 [1, 2, 3])) @ [nl]"
  by code_simp


subsection \<open>The import list\<close>

lemma distinct_collectImports: "distinct (collectImports d c)"
  by (cases d; cases c) (simp_all add: collectImports_def)

lemma set_mainImports:
  "set (mainImports f) =
     set (collectImports (selectDeclaration f) (selectCompressor f))
     \<union> (if Import f = [] then {} else {Import f})"
  by (simp add: mainImports_def)

text \<open>
  C6: for the func declaration the imports collected from declaration and compressor
  are the declaration's own import followed by the compressor's imports; for const and
  var nothing is collected, whatever the compressor is.  The sorted list \<open>main\<close> renders
  holds these names and the \<open>-import\<close> flag, when it is set.
\<close>

theorem collected_imports:
  "collectImports FuncDecl c = declarationImports FuncDecl @ compressorImports c
   \<and> collectImports ConstDecl c = []
   \<and> collectImports VarDecl c = []
   \<and> set (mainImports f) =
       (if selectDeclaration f = FuncDecl
        then set (declarationImports FuncDecl) \<union> set (compressorImports (selectCompressor f))
        else {})
       \<union> (if Import f = [] then {} else {Import f})"
proof -
  have "set (collectImports (selectDeclaration f) (selectCompressor f)) =
       (if selectDeclaration f = FuncDecl
        then set (declarationImports FuncDecl) \<union> set (compressorImports (selectCompressor f))
        else {})"
    by (cases "selectDeclaration f") (simp_all add: collectImports_def)
  then show ?thesis
    by (simp add: set_mainImports) (simp add: collectImports_def)
qed

text \<open>
  C7 (as the code has it): the import names are rendered in lexicographic order, one line
  each.  They are distinct exactly when the \<open>-import\<close> flag is empty or names a package
  that declaration and compressor do not already require; a flag that repeats a required
  import is listed twice.
\<close>

theorem import_block_sorted:
  "sorted (mainImports f)
   \<and> (distinct (mainImports f) \<longleftrightarrow>
        Import f = [] \<or> Import f \<notin> set (collectImports (selectDeclaration f) (selectCompressor f)))
   \<and> importBlock E (mainImports f) =
       (if mainImports f = [] then []
        else ''import ('' @ [nl]
             @ concat (map (\<lambda>imp. [tab] @ GoSyntax E imp @ [nl]) (mainImports f))
             @ '')'' @ [nl, nl])"
proof (intro conjI)
  show "sorted (mainImports f)"
    by (simp add: mainImports_def)
  show "distinct (mainImports f) \<longleftrightarrow>
        Import f = [] \<or> Import f \<notin> set (collectImports (selectDeclaration f) (selectCompressor f))"
    using distinct_collectImports[of "selectDeclaration f" "selectCompressor f"]
    by (auto simp: mainImports_def)
  show "importBlock E (mainImports f) =
       (if mainImports f = [] then []
        else ''import ('' @ [nl]
             @ concat (map (\<lambda>imp. [tab] @ GoSyntax E imp @ [nl]) (mainImports f))
             @ '')'' @ [nl, nl])"
    by (simp add: importBlock_def)
qed

theorem import_block_sorted_witness:
  "(Import (defaultFlags\<lparr>Import := ''fmt''\<rparr>) = []
    \<or> Import (defaultFlags\<lparr>Import := ''fmt''\<rparr>)
        \<notin> set (collectImports (selectDeclaration (defaultFlags\<lparr>Import := ''fmt''\<rparr>))
                                (selectCompressor (defaultFlags\<lparr>Import := ''fmt''\<rparr>))))
   \<and> distinct (mainImports (defaultFlags\<lparr>Import := ''fmt''\<rparr>))
   \<and> sorted (mainImports (defaultFlags\<lparr>Import := ''fmt''\<rparr>))"
proof -
  let ?f = "defaultFlags\<lparr>Import := ''fmt''\<rparr>"
  have h: "Import ?f = [] \<or> Import ?f \<notin> set (collectImports (selectDeclaration ?f) (selectCompressor ?f))"
    by (simp add: defaultFlags_def selectDeclaration_def selectCompressor_def collectImports_def)
  from import_block_sorted[of ?f] h show ?thesis by blast
qed

text \<open>
  C7 as the specification words it fails: \<open>-import io\<close> with the func declaration lists
  \<open>io\<close> twice.
\<close>

theorem import_block_distinct_counterexample:
  "mainImports (defaultFlags\<lparr>Import := ''io''\<rparr>) = [''io'', ''io'', ''ioutil'', ''strings'']
   \<and> \<not> distinct (mainImports (defaultFlags\<lparr>Import := ''io''\<rparr>))"
  by code_simp


subsection \<open>Lexing a formatted value\<close>

lemma unat_hi: "unat (drop_bit 4 (x::byte)) < 16"
proof -
  have "unat x < 2 ^ 8" using unsigned_less[of x, where 'a = nat] by simp
  then have "unat x < 16 * 16" by simp
  then have "unat x div 16 < 16" by (rule less_mult_imp_div_less)
  moreover have "unat (drop_bit 4 x) = drop_bit 4 (unat x)"
    by (rule unat_drop_bit_eq)
  moreover have "drop_bit 4 (unat x) = unat x div 2 ^ 4"
    by (rule drop_bit_eq_div)
  ultimately show ?thesis by simp
qed

lemma unat_lo: "unat ((x::byte) AND 0x0f) < 16"
proof -
  have "(0x0f :: byte) = mask 4" by (simp add: mask_eq_exp_minus_1)
  then have "x AND 0x0f = take_bit 4 x" by (simp add: take_bit_eq_mask)
  moreover have "take_bit 4 (unat x) < 2 ^ 4" by (rule take_bit_nat_less_exp)
  ultimately show ?thesis by (simp add: unsigned_take_bit_eq)
qed

lemma hextable_nth:
  "n < 16 \<Longrightarrow> hextable ! n \<noteq> dq \<and> hextable ! n \<noteq> bsl \<and> hextable ! n \<noteq> CHR ''+''"
proof -
  assume "n < 16"
  then have "n < length hextable" by (simp add: hextable_def)
  then have "hextable ! n \<in> set hextable" by (rule nth_mem)
  moreover have "\<forall>c \<in> set hextable. c \<noteq> dq \<and> c \<noteq> bsl \<and> c \<noteq> CHR ''+''"
    by (simp add: hextable_def)
  ultimately show ?thesis by blast
qed

lemma lex_hexEscape:
  "inString st \<Longrightarrow> \<not> escaped st \<Longrightarrow> foldl lexStep st (hexEscape x) = st"
  using hextable_nth[OF unat_hi, of x] hextable_nth[OF unat_lo, of x]
  by (simp add: hexEscape_def lexStep_def)

lemma lex_escape:
  "inString st \<Longrightarrow> \<not> escaped st \<Longrightarrow> foldl lexStep st (escape c) = st"
  by (induction c) (simp_all add: escape_def lex_hexEscape)

lemma lex_quoted:
  "\<not> inString st \<Longrightarrow> \<not> escaped st \<Longrightarrow> foldl lexStep st (quoted (escape c)) = reset st"
proof -
  assume a: "\<not> inString st" "\<not> escaped st"
  let ?s1 = "st\<lparr>inString := True, ident := [], selector := False\<rparr>"
  have 1: "lexStep st dq = ?s1" using a by (simp add: lexStep_def)
  have 2: "foldl lexStep ?s1 (escape c) = ?s1" using a by (simp add: lex_escape)
  have 3: "lexStep ?s1 dq = reset st" using a by (simp add: lexStep_def reset_def)
  show ?thesis by (simp add: quoted_def 1 2 3)
qed


lemma reset_fields [simp]:
  "inString (reset st) = inString st" "escaped (reset st) = escaped st"
  "depth (reset st) = depth st" "unbalanced (reset st) = unbalanced st"
  "refs (reset st) = refs st" "ident (reset st) = []" "selector (reset st) = False"
  "reset (reset st) = reset st"
  by (simp_all add: reset_def)

lemma lexStep_blank:
  assumes "\<not> inString st" "c \<in> {CHR '' '', CHR ''+'', nl, tab}"
  shows "lexStep st c = reset st"
proof -
  have "\<not> isIdentChar c \<and> c \<noteq> dq \<and> c \<noteq> CHR ''('' \<and> c \<noteq> CHR '')'' \<and> c \<noteq> CHR ''.''"
    using assms(2) by (auto simp: isIdentChar_def)
  then show ?thesis
    using assms(1) by (simp add: lexStep_def reset_def)
qed

lemma lex_tabs:
  "\<not> inString st \<Longrightarrow> foldl lexStep (reset st) (replicate k tab) = reset st"
  by (induction k) (simp_all add: lexStep_blank)

lemma lex_chunkLine:
  assumes "\<not> inString st" "\<not> escaped st"
  shows "foldl lexStep st (chunkLine indent c) = reset st"
proof -
  have "foldl lexStep st (replicate (nat indent) tab) = st \<or>
        foldl lexStep st (replicate (nat indent) tab) = reset st"
  proof (cases "nat indent")
    case 0
    then show ?thesis by simp
  next
    case (Suc k)
    then show ?thesis using assms(1) lex_tabs[OF assms(1), of k] by (simp add: lexStep_blank)
  qed
  then show ?thesis
    using assms lex_quoted[of st c] lex_quoted[of "reset st" c]
    by (auto simp: chunkLine_def)
qed

lemma lex_literal:
  assumes "\<not> inString st" "\<not> escaped st" "l \<in> set (literals wrap indent b)"
  shows "foldl lexStep st l = reset st"
proof -
  have e: "[dq, dq] = quoted (escape [])" by (simp add: quoted_def escape_def)
  from assms(3) have "l = quoted (escape []) \<or> l = quoted (escape b) \<or> (\<exists>c. l = chunkLine indent c)"
    unfolding e[symmetric] by (auto simp: literals_def split: if_splits)
  then show ?thesis
    using assms(1,2) by (auto simp: lex_quoted lex_chunkLine)
qed

lemma lex_joinPlus:
  assumes "\<And>l st. l \<in> set ls \<Longrightarrow> \<not> inString st \<Longrightarrow> \<not> escaped st \<Longrightarrow> foldl lexStep st l = reset st"
  shows "ls \<noteq> [] \<Longrightarrow> \<not> inString st \<Longrightarrow> \<not> escaped st \<Longrightarrow> foldl lexStep st (joinPlus ls) = reset st"
  using assms
proof (induction ls arbitrary: st rule: joinPlus.induct)
  case 1
  then show ?case by simp
next
  case (2 l)
  then show ?case by simp
next
  case (3 l l' ls)
  have a: "foldl lexStep st l = reset st"
    using "3.prems"(2,3) by (intro "3.prems"(4)) simp_all
  have b: "foldl lexStep (reset st) ('' +'' @ [nl]) = reset st"
    using "3.prems"(2) by (simp add: lexStep_blank)
  have c: "foldl lexStep (reset st) (joinPlus (l' # ls)) = reset (reset st)"
  proof (rule "3.IH")
    show "l' # ls \<noteq> []" by simp
    show "\<not> inString (reset st)" "\<not> escaped (reset st)" using "3.prems"(2,3) by simp_all
    show "\<And>m st'. m \<in> set (l' # ls) \<Longrightarrow> \<not> inString st' \<Longrightarrow> \<not> escaped st' \<Longrightarrow>
            foldl lexStep st' m = reset st'"
      by (rule "3.prems"(4)) simp_all
  qed
  have j: "joinPlus (l # l' # ls) = l @ ('' +'' @ [nl]) @ joinPlus (l' # ls)" by simp
  from b have b': "foldl lexStep (foldl lexStep (reset st) '' +'') [nl] = reset st"
    by (simp only: foldl_append)
  show ?case by (simp only: j foldl_append a b' c reset_fields)
qed

lemma lex_literals:
  "\<not> inString st \<Longrightarrow> \<not> escaped st \<Longrightarrow>
   foldl lexStep st (joinPlus (literals wrap indent b)) = reset st"
  by (rule lex_joinPlus) (simp_all add: lex_literal literals_nonempty)


lemma lexStep_escaped:
  "escaped st \<longrightarrow> inString st \<Longrightarrow> escaped (lexStep st c) \<longrightarrow> inString (lexStep st c)"
  by (simp add: lexStep_def)

lemma foldl_lexStep_escaped:
  "escaped st \<longrightarrow> inString st \<Longrightarrow>
   escaped (foldl lexStep st s) \<longrightarrow> inString (foldl lexStep st s)"
  by (induction s arbitrary: st) (simp_all add: lexStep_escaped del: imp_disjL)

lemma lex_escaped: "\<not> inString (lex s) \<Longrightarrow> \<not> escaped (lex s)"
  using foldl_lexStep_escaped[of lexInit s] by (auto simp: lex_def lexInit_def)

lemma lex_untyped:
  assumes "\<not> inString st" "\<not> escaped st" "ty = [] \<or> ty = ''string''"
  shows "foldl lexStep st (formatValue wrap indent ty b) = reset st"
proof -
  have "formatValue wrap indent ty b = joinPlus (literals wrap indent b) @ [nl]"
    using assms(3) by (auto simp: formatValue_literals convert_def)
  then show ?thesis
    using assms(1,2) by (simp add: lex_literals lexStep_blank)
qed

lemma lex_call:
  assumes "\<not> inString st" "\<not> escaped st"
  shows "foldl lexStep st (''('' @ joinPlus (literals wrap indent b) @ '')'' @ [nl]) = reset st"
proof -
  let ?s1 = "st\<lparr>depth := Suc (depth st), ident := [], selector := False\<rparr>"
  have 1: "lexStep st CHR ''('' = ?s1"
    using assms(1) by (simp add: lexStep_def)
  have 2: "foldl lexStep ?s1 (joinPlus (literals wrap indent b)) = reset ?s1"
    using assms by (intro lex_literals) simp_all
  have 3: "lexStep (reset ?s1) CHR '')'' = reset st"
    using assms(1) by (simp add: lexStep_def reset_def)
  have 4: "lexStep (reset st) nl = reset st"
    using assms(1) by (simp add: lexStep_blank)
  show ?thesis by (simp add: 1 2 3 4)
qed

lemma lex_formatValue:
  assumes "\<not> inString (foldl lexStep st (if ty = ''string'' then [] else ty))"
    and "\<not> escaped (foldl lexStep st (if ty = ''string'' then [] else ty))"
  shows "foldl lexStep st (formatValue wrap indent ty b) =
         reset (foldl lexStep st (if ty = ''string'' then [] else ty))"
proof (cases "ty = [] \<or> ty = ''string''")
  case True
  then show ?thesis using assms lex_untyped[of st ty wrap indent b] by auto
next
  case False
  then have "formatValue wrap indent ty b =
      ty @ (''('' @ joinPlus (literals wrap indent b) @ '')'' @ [nl])"
    by (simp add: formatValue_literals convert_def)
  then show ?thesis
    using False assms lex_call[of "foldl lexStep st ty" wrap indent b]
    by (simp only: foldl_append) simp
qed


subsection \<open>Balanced output\<close>

lemma hexEscape_chars: "dq \<notin> set (hexEscape x) \<and> CHR ''+'' \<notin> set (hexEscape x)"
  using hextable_nth[OF unat_hi, of x] hextable_nth[OF unat_lo, of x]
  by (simp add: hexEscape_def) metis

lemma escape_chars: "dq \<notin> set (escape c) \<and> CHR ''+'' \<notin> set (escape c)"
  using hexEscape_chars by (induction c) (simp_all add: escape_def)

lemma literal_shape:
  assumes "l \<in> set (literals wrap indent b)"
  shows "\<exists>k body. l = replicate k tab @ quoted body \<and> dq \<notin> set body \<and> CHR ''+'' \<notin> set body"
proof -
  have e: "[dq, dq] = replicate 0 tab @ quoted (escape [])" by (simp add: quoted_def escape_def)
  from assms have "l = replicate 0 tab @ quoted (escape []) \<or> l = replicate 0 tab @ quoted (escape b)
       \<or> (\<exists>c. l = replicate (nat indent) tab @ quoted (escape c))"
    unfolding e[symmetric] by (auto simp: literals_def chunkLine_def split: if_splits)
  then show ?thesis using escape_chars by blast
qed

lemma literal_no_plus:
  "l \<in> set (literals wrap indent b) \<Longrightarrow> count_list l CHR ''+'' = 0"
  using literal_shape[of l wrap indent b] by (auto simp: quoted_def)

lemma count_joinPlus:
  "(\<And>l. l \<in> set ls \<Longrightarrow> count_list l CHR ''+'' = 0) \<Longrightarrow>
   count_list (joinPlus ls) CHR ''+'' = length ls - 1"
  by (induction ls rule: joinPlus.induct) simp_all

text \<open>
  C5: the output of \<open>formatValue\<close> is a conversion call (or nothing) around literals
  joined by \<open>+\<close>, and a newline.  Every literal is a complete quoted string whose body
  holds neither a quote nor a \<open>+\<close>, so each \<open>+\<close> stands between two literals and none
  follows the last; without a type name the output has one \<open>+\<close> less than it has
  literals.  The lexer finds the output balanced whenever the type name is balanced.  The
  empty payload is the literal \<open>""\<close> alone.
\<close>

theorem formatValue_balanced:
  "(balanced ty \<longrightarrow> balanced (formatValue wrap indent ty b))
   \<and> formatValue wrap indent ty b = convert ty (joinPlus (literals wrap indent b)) @ [nl]
   \<and> literals wrap indent b \<noteq> []
   \<and> (\<forall>l \<in> set (literals wrap indent b).
        \<exists>k body. l = replicate k tab @ quoted body \<and> dq \<notin> set body \<and> CHR ''+'' \<notin> set body)
   \<and> count_list (formatValue wrap indent [] b) CHR ''+'' = length (literals wrap indent b) - 1
   \<and> formatValue wrap indent ty [] = convert ty [dq, dq] @ [nl]"
proof (intro conjI impI ballI)
  assume bal: "balanced ty"
  let ?t = "if ty = ''string'' then [] else ty"
  have "balanced ?t" using bal by (simp add: balanced_def lex_def lexInit_def)
  then have t: "\<not> inString (lex ?t)" "depth (lex ?t) = 0" "\<not> unbalanced (lex ?t)"
    by (simp_all add: balanced_def Let_def)
  have "lex (formatValue wrap indent ty b) = reset (lex ?t)"
    unfolding lex_def
    by (rule lex_formatValue) (use t(1) lex_escaped[OF t(1)] in \<open>simp_all add: lex_def\<close>)
  then show "balanced (formatValue wrap indent ty b)"
    using t by (simp add: balanced_def)
next
  show "formatValue wrap indent ty b = convert ty (joinPlus (literals wrap indent b)) @ [nl]"
    by (rule formatValue_literals)
  show "literals wrap indent b \<noteq> []"
    by (rule literals_nonempty)
  show "count_list (formatValue wrap indent [] b) CHR ''+'' = length (literals wrap indent b) - 1"
    by (simp add: formatValue_literals convert_def count_joinPlus literal_no_plus)
  show "formatValue wrap indent ty [] = convert ty [dq, dq] @ [nl]"
    by (auto simp: formatValue_literals literals_def quoted_def escape_def)
next
  fix l assume "l \<in> set (literals wrap indent b)"
  then show "\<exists>k body. l = replicate k tab @ quoted body \<and> dq \<notin> set body \<and> CHR ''+'' \<notin> set body"
    by (rule literal_shape)
qed

theorem formatValue_balanced_witness:
  "balanced ''T'' \<and> balanced (formatValue 2 1 ''T'' [1, 2, 3])
   \<and> [dq, dq] \<in> set (literals 2 1 [1, 2, 3])
   \<and> (\<exists>k body. [dq, dq] = replicate k tab @ quoted body \<and> dq \<notin> set body \<and> CHR ''+'' \<notin> set body)"
proof -
  have h1: "balanced ''T''" by code_simp
  have h2: "[dq, dq] \<in> set (literals 2 1 [1, 2, 3])" by (simp add: literals_def)
  note t = formatValue_balanced[where ty = "''T''" and wrap = 2 and indent = 1 and b = "[1, 2, 3]"]
  from t h1 have c1: "balanced (formatValue 2 1 ''T'' [1, 2, 3])" by blast
  from t h2 have c2: "\<exists>k body. [dq, dq] = replicate k tab @ quoted body \<and> dq \<notin> set body \<and> CHR ''+'' \<notin> set body"
    by blast
  from h1 h2 c1 c2 show ?thesis by blast
qed


subsection \<open>Sanitized names\<close>

lemma declNameLoop_started:
  "s \<noteq> [] \<Longrightarrow> declNameLoop U export rs s = s @ map (keepRune U) rs"
  by (induction rs arbitrary: s) (simp_all add: keepRune_def)

lemma declNameLoop_sanitized: "declNameLoop U export rs [] = sanitized U rs export"
proof (induction rs)
  case Nil
  then show ?case by (simp add: sanitized_def)
next
  case (Cons r rs)
  show ?case
  proof (cases "IsLetter U r")
    case True
    then show ?thesis by (simp add: sanitized_def declNameLoop_started)
  next
    case False
    with Cons show ?thesis by (simp add: sanitized_def)
  qed
qed

lemma lead2: "0x80 \<le> (r::int) \<Longrightarrow> r < 0x800 \<Longrightarrow> 0xC2 \<le> 0xC0 + r div 64 \<and> 0xC0 + r div 64 \<le> 0xDF"
  by arith

lemma lead3: "0x800 \<le> (r::int) \<Longrightarrow> r < 0x10000 \<Longrightarrow> 0xE0 \<le> 0xE0 + r div 4096 \<and> 0xE0 + r div 4096 \<le> 0xEF"
  by arith

lemma lead4: "0x10000 \<le> (r::int) \<Longrightarrow> r \<le> 0x10FFFF \<Longrightarrow> 0xF0 \<le> 0xF0 + r div 262144 \<and> 0xF0 + r div 262144 \<le> 0xF4"
  by arith

lemma lead_not_underscore: "0xC2 \<le> (v::int) \<Longrightarrow> v \<le> 0xF4 \<Longrightarrow> char_of v \<noteq> CHR ''_''"
proof
  assume v: "0xC2 \<le> v" "v \<le> 0xF4" and "char_of v = CHR ''_''"
  then have "of_char (char_of v) = (of_char CHR ''_'' :: int)" by simp
  then have "v mod 256 = 0x5F" by simp
  moreover have "v mod 256 = v" using v by simp
  ultimately show False using v by simp
qed

lemma ascii_not_underscore: "0 \<le> (r::int) \<Longrightarrow> r < 0x80 \<Longrightarrow> r \<noteq> underscore \<Longrightarrow> char_of r \<noteq> CHR ''_''"
proof
  assume r: "0 \<le> r" "r < 0x80" "r \<noteq> underscore" and "char_of r = CHR ''_''"
  then have "of_char (char_of r) = (of_char CHR ''_'' :: int)" by simp
  then have "r mod 256 = 0x5F" by simp
  moreover have "r mod 256 = r" using r by simp
  ultimately show False using r by simp
qed

lemma hd_encodeRune:
  "encodeRune r \<noteq> [] \<and> (r \<noteq> underscore \<longrightarrow> hd (encodeRune r) \<noteq> CHR ''_'')"
proof (cases "r < 0 \<or> 0x10FFFF < r \<or> (0xD800 \<le> r \<and> r \<le> 0xDFFF)")
  case True
  then show ?thesis by (simp add: encodeRune_def)
next
  case valid: False
  consider "r < 0x80" | "0x80 \<le> r" "r < 0x800" | "0x800 \<le> r" "r < 0x10000" | "0x10000 \<le> r"
    by linarith
  then show ?thesis
  proof cases
    case 1
    with valid ascii_not_underscore[of r] show ?thesis by (simp add: encodeRune_def)
  next
    case 2
    from lead2[OF 2] have "char_of (0xC0 + r div 64) \<noteq> CHR ''_''"
      by (intro lead_not_underscore) simp_all
    with 2 valid show ?thesis by (simp add: encodeRune_def)
  next
    case 3
    from lead3[OF 3] have "char_of (0xE0 + r div 4096) \<noteq> CHR ''_''"
      by (intro lead_not_underscore) simp_all
    with 3 valid show ?thesis by (simp add: encodeRune_def)
  next
    case 4
    then have "r \<le> 0x10FFFF" using valid by simp
    from lead4[OF 4 this] have "char_of (0xF0 + r div 262144) \<noteq> CHR ''_''"
      by (intro lead_not_underscore) simp_all
    with 4 valid show ?thesis by (simp add: encodeRune_def)
  qed
qed


lemma hd_encodeRunes:
  "r \<noteq> underscore \<Longrightarrow> encodeRunes (r # rs) \<noteq> [] \<and> hd (encodeRunes (r # rs)) \<noteq> CHR ''_''"
  using hd_encodeRune[of r] by (simp add: encodeRunes_def)

lemma sanitized_head:
  "sanitized U rs export = [] \<or>
   (\<exists>r rest. IsLetter U r \<and>
      sanitized U rs export = (if export then ToUpper U r else ToLower U r) # rest)"
proof (cases "dropWhile (\<lambda>r. \<not> IsLetter U r) rs")
  case Nil
  show ?thesis unfolding sanitized_def Nil by simp
next
  case (Cons r rest)
  then have "IsLetter U r" using hd_dropWhile[of "\<lambda>r. \<not> IsLetter U r" rs] by simp
  then show ?thesis unfolding sanitized_def Cons by auto
qed

text \<open>
  C3 (as the code has it): for every name and export flag, \<open>getDeclName\<close> drops the
  runes in front of the first letter, maps the first letter to upper or lower case, keeps
  every later letter and turns every later rune that is not a letter into one underscore
  of its own, so a run of n such runes gives n underscores.  When no letter is mapped to
  the underscore by \<open>unicode.ToUpper\<close> or \<open>unicode.ToLower\<close>, the result does not
  begin with an underscore.
\<close>

theorem getDeclName_sanitized:
  "getDeclName U name export = encodeRunes (sanitized U (decodeRunes name) export)
   \<and> ((\<forall>r. IsLetter U r \<longrightarrow> ToUpper U r \<noteq> underscore \<and> ToLower U r \<noteq> underscore) \<longrightarrow>
       getDeclName U name export = [] \<or> hd (getDeclName U name export) \<noteq> CHR ''_'')"
proof (intro conjI impI)
  show eq: "getDeclName U name export = encodeRunes (sanitized U (decodeRunes name) export)"
    by (simp add: getDeclName_def declNameLoop_sanitized)
  assume maps: "\<forall>r. IsLetter U r \<longrightarrow> ToUpper U r \<noteq> underscore \<and> ToLower U r \<noteq> underscore"
  from sanitized_head[of U "decodeRunes name" export]
  show "getDeclName U name export = [] \<or> hd (getDeclName U name export) \<noteq> CHR ''_''"
  proof
    assume "sanitized U (decodeRunes name) export = []"
    then show ?thesis by (simp add: eq encodeRunes_def)
  next
    assume "\<exists>r rest. IsLetter U r \<and>
      sanitized U (decodeRunes name) export = (if export then ToUpper U r else ToLower U r) # rest"
    then obtain r rest where r: "IsLetter U r"
      and s: "sanitized U (decodeRunes name) export = (if export then ToUpper U r else ToLower U r) # rest"
      by blast
    from r maps have "(if export then ToUpper U r else ToLower U r) \<noteq> underscore" by simp
    from hd_encodeRunes[OF this, of rest] show ?thesis by (simp add: eq s)
  qed
qed

theorem getDeclName_sanitized_witness:
  "(getDeclName asciiTables ''.config/cfg.XML'' True = []
    \<or> hd (getDeclName asciiTables ''.config/cfg.XML'' True) \<noteq> CHR ''_'')
   \<and> getDeclName asciiTables ''.config/cfg.XML'' True = ''Config_cfg_XML''"
proof -
  have h: "\<forall>r. IsLetter asciiTables r \<longrightarrow>
        ToUpper asciiTables r \<noteq> underscore \<and> ToLower asciiTables r \<noteq> underscore"
    by (auto simp: asciiTables_def)
  note t = getDeclName_sanitized[where U = asciiTables and name = "''.config/cfg.XML''" and export = True]
  from t h have c: "getDeclName asciiTables ''.config/cfg.XML'' True = []
       \<or> hd (getDeclName asciiTables ''.config/cfg.XML'' True) \<noteq> CHR ''_''"
    by blast
  have v: "getDeclName asciiTables ''.config/cfg.XML'' True = ''Config_cfg_XML''"
    by code_simp
  from c v show ?thesis by blast
qed

text \<open>
  C3 as the specification words it fails: in \<open>a12b\<close> the run of two digits behind the
  first letter becomes two underscores, not one.
\<close>

theorem getDeclName_run_counterexample:
  "getDeclName asciiTables ''a12b'' False = ''a__b''
   \<and> encodeRunes (specSanitized asciiTables (decodeRunes ''a12b'') False) = ''a_b''
   \<and> getDeclName asciiTables ''a12b'' False
       \<noteq> encodeRunes (specSanitized asciiTables (decodeRunes ''a12b'') False)"
  by code_simp

subsection \<open>Names without letters\<close>

lemma dropWhile_no_letter:
  "\<forall>r \<in> set rs. \<not> IsLetter U r \<Longrightarrow> dropWhile (\<lambda>r. \<not> IsLetter U r) rs = []"
  by (induction rs) simp_all

lemma getDeclName_no_letter:
  "\<forall>r \<in> set (decodeRunes name). \<not> IsLetter U r \<Longrightarrow> getDeclName U name export = []"
  by (simp add: getDeclName_def declNameLoop_sanitized sanitized_def dropWhile_no_letter
      encodeRunes_def)

text \<open>
  C9: when the name that \<open>main\<close> hands to \<open>getDeclName\<close> (the \<open>-name\<close> flag or, for an
  empty flag, \<open>stdin\<close> or the base name of the file) has no letter among its runes, as
  the empty name has none, \<open>getDeclName\<close> returns the empty string, and \<open>main\<close> renders
  the declaration with the empty identifier, \<open>const  = ...\<close> for the const declaration:
  the read input is the only source of an error, and no other name is put in its place.
\<close>

theorem empty_identifier_rendered:
  "((\<forall>r \<in> set (decodeRunes name). \<not> IsLetter U r) \<longrightarrow> getDeclName U name export = [])
   \<and> getDeclName U [] export = []
   \<and> ((\<forall>r \<in> set (decodeRunes (defaultName E f inp)). \<not> IsLetter (Unicode E) r)
        \<and> readInput inp = Inr b \<longrightarrow>
       generate E f args inp =
         Inr (header E f args
              @ FormatDeclare (Gzip E) (selectDeclaration f) b [] (selectType f) (selectCompressor f)))
   \<and> FormatDeclare gz ConstDecl b [] ty c = ''const  = '' @ formatValue 16 1 ty (Encode gz c b)
   \<and> FormatDeclare gz ConstDecl [] [] [] NoCompressor = ''const  = '' @ [dq, dq, nl]"
proof (intro conjI impI)
  assume "\<forall>r \<in> set (decodeRunes name). \<not> IsLetter U r"
  then show "getDeclName U name export = []" by (rule getDeclName_no_letter)
next
  show "getDeclName U [] export = []" by (simp add: getDeclName_no_letter)
next
  assume a: "(\<forall>r \<in> set (decodeRunes (defaultName E f inp)). \<not> IsLetter (Unicode E) r)
        \<and> readInput inp = Inr b"
  then have "getDeclName (Unicode E) (defaultName E f inp) (Export f) = []"
    by (simp add: getDeclName_no_letter)
  with a show "generate E f args inp =
         Inr (header E f args
              @ FormatDeclare (Gzip E) (selectDeclaration f) b [] (selectType f) (selectCompressor f))"
    by (simp add: generate_def)
next
  show "FormatDeclare gz ConstDecl b [] ty c = ''const  = '' @ formatValue 16 1 ty (Encode gz c b)"
    by simp
next
  show "FormatDeclare gz ConstDecl [] [] [] NoCompressor = ''const  = '' @ [dq, dq, nl]"
    by (simp add: formatValue_def)
qed


theorem empty_identifier_rendered_witness:
  "getDeclName asciiTables ''123'' False = []
   \<and> defaultName plainEnv (defaultFlags\<lparr>Decl := ''const'', Name := ''123''\<rparr>) (Stdin (Some [])) = ''123''
   \<and> readInput (Stdin (Some [])) = Inr []
   \<and> generate plainEnv (defaultFlags\<lparr>Decl := ''const'', Name := ''123''\<rparr>) [] (Stdin (Some [])) =
       Inr (header plainEnv (defaultFlags\<lparr>Decl := ''const'', Name := ''123''\<rparr>) []
            @ FormatDeclare (Gzip plainEnv) ConstDecl [] [] [] NoCompressor)"
proof -
  let ?f = "defaultFlags\<lparr>Decl := ''const'', Name := ''123''\<rparr>"
  have h1: "\<forall>r \<in> set (decodeRunes ''123''). \<not> IsLetter asciiTables r"
    by (simp add: asciiTables_def)
  have h2: "(\<forall>r \<in> set (decodeRunes (defaultName plainEnv ?f (Stdin (Some [])))).
              \<not> IsLetter (Unicode plainEnv) r)
            \<and> readInput (Stdin (Some [])) = Inr []"
    by (simp add: defaultName_def defaultFlags_def plainEnv_def asciiTables_def readInput_def)
  have s: "selectDeclaration ?f = ConstDecl" "selectType ?f = []" "selectCompressor ?f = NoCompressor"
    by (simp_all add: selectDeclaration_def selectType_def selectCompressor_def defaultFlags_def)
  note t1 = empty_identifier_rendered[where name = "''123''" and U = asciiTables and export = False]
  note t2 = empty_identifier_rendered[where E = plainEnv and f = ?f and inp = "Stdin (Some [])"
      and b = "[]" and args = "[]"]
  from t1 h1 have c1: "getDeclName asciiTables ''123'' False = []" by blast
  from t2 h2 have "generate plainEnv ?f [] (Stdin (Some [])) =
       Inr (header plainEnv ?f []
            @ FormatDeclare (Gzip plainEnv) (selectDeclaration ?f) [] [] (selectType ?f) (selectCompressor ?f))"
    by blast
  then have c2: "generate plainEnv ?f [] (Stdin (Some [])) =
       Inr (header plainEnv ?f [] @ FormatDeclare (Gzip plainEnv) ConstDecl [] [] [] NoCompressor)"
    by (simp only: s)
  have d: "defaultName plainEnv ?f (Stdin (Some [])) = ''123''"
    by (simp add: defaultName_def defaultFlags_def)
  from h2 d c1 c2 show ?thesis by blast
qed


subsection \<open>Package references of a declaration\<close>

lemma isIdentChar_plain:
  "isIdentChar c \<Longrightarrow> c \<noteq> dq \<and> c \<noteq> CHR ''('' \<and> c \<noteq> CHR '')''"
  by (auto simp: isIdentChar_def)

lemma lex_ident:
  "\<not> inString st \<Longrightarrow> \<forall>c \<in> set s. isIdentChar c \<Longrightarrow>
   foldl lexStep st s = st\<lparr>ident := ident st @ s\<rparr>"
proof (induction s arbitrary: st)
  case Nil
  then show ?case by simp
next
  case (Cons c s)
  then have c: "isIdentChar c" by simp
  have 1: "lexStep st c = st\<lparr>ident := ident st @ [c]\<rparr>"
    using Cons.prems(1) c isIdentChar_plain[OF c] by (simp add: lexStep_def)
  have "foldl lexStep (st\<lparr>ident := ident st @ [c]\<rparr>) s =
        st\<lparr>ident := ident st @ [c]\<rparr>\<lparr>ident := ident (st\<lparr>ident := ident st @ [c]\<rparr>) @ s\<rparr>"
    using Cons.prems by (intro Cons.IH) simp_all
  then show ?case by (simp add: 1)
qed

lemma lex_func_open: "foldl lexStep lexInit ''func '' = lexInit"
  by code_simp

lemma lex_const_open: "foldl lexStep lexInit ''const '' = lexInit"
  by code_simp

lemma lex_var_open: "foldl lexStep lexInit ''var '' = lexInit"
  by code_simp

lemma lex_assign: "foldl lexStep (lexInit\<lparr>ident := name\<rparr>) '' = '' = lexInit"
  by (simp add: lexStep_def lexInit_def isIdentChar_def)

lemma lex_func_head:
  "foldl lexStep (lexInit\<lparr>ident := name\<rparr>) (''() io.ReadCloser {'' @ [nl, tab] @ ''const a = '')
   = lexInit\<lparr>refs := [''io'']\<rparr>"
proof -
  have 1: "lexStep (lexInit\<lparr>ident := name\<rparr>) CHR ''('' = lexInit\<lparr>depth := Suc 0\<rparr>"
    by (simp add: lexStep_def lexInit_def)
  have 2: "foldl lexStep (lexInit\<lparr>depth := Suc 0\<rparr>) ('') io.ReadCloser {'' @ [nl, tab] @ ''const a = '')
     = lexInit\<lparr>refs := [''io'']\<rparr>"
    by code_simp
  show ?thesis using 2 by (simp add: 1)
qed

lemma lex_func_tail_plain:
  "refs (foldl lexStep (lexInit\<lparr>refs := [''io'']\<rparr>)
           ([tab] @ FuncDecoder NoCompressor ''a'' @ [nl] @ ''}'' @ [nl]))
   = ''io'' # compressorImports NoCompressor"
  by code_simp

lemma lex_func_tail_gzip:
  "refs (foldl lexStep (lexInit\<lparr>refs := [''io'']\<rparr>)
           ([tab] @ FuncDecoder GzipCompressor ''a'' @ [nl] @ ''}'' @ [nl]))
   = ''io'' # compressorImports GzipCompressor"
  by code_simp

lemma lex_func_tail:
  "refs (foldl lexStep (lexInit\<lparr>refs := [''io'']\<rparr>) ([tab] @ FuncDecoder c ''a'' @ [nl] @ ''}'' @ [nl]))
   = ''io'' # compressorImports c"
  by (cases c) (simp_all only: lex_func_tail_plain lex_func_tail_gzip)

lemma lexInit_fields [simp]:
  "inString lexInit = False" "escaped lexInit = False" "ident lexInit = []" "refs lexInit = []"
  "reset lexInit = lexInit"
  by (simp_all add: lexInit_def reset_def)

lemma lex_named:
  assumes "\<forall>c \<in> set name. isIdentChar c"
  shows "foldl lexStep lexInit name = lexInit\<lparr>ident := name\<rparr>"
  using lex_ident[of lexInit name] assms by simp

lemma pkgRefs_func:
  assumes "\<forall>c \<in> set name. isIdentChar c"
  shows "pkgRefs (FormatDeclare gz FuncDecl b name [] c) = ''io'' # compressorImports c"
proof -
  let ?v = "formatValue 16 2 [] (Encode gz c b)"
  let ?head = "''() io.ReadCloser {'' @ [nl, tab] @ ''const a = ''"
  let ?tail = "[tab] @ FuncDecoder c ''a'' @ [nl] @ ''}'' @ [nl]"
  let ?s = "lexInit\<lparr>refs := [''io'']\<rparr>"
  have f: "FormatDeclare gz FuncDecl b name [] c = ''func '' @ name @ ?head @ ?v @ ?tail"
    by simp
  have o: "\<not> inString ?s" "\<not> escaped ?s" by simp_all
  have v: "foldl lexStep ?s ?v = reset ?s"
    by (rule lex_untyped[OF o]) simp
  have r: "reset ?s = ?s" by (simp add: reset_def lexInit_def)
  show ?thesis
    unfolding pkgRefs_def lex_def f foldl_append lex_func_open lex_named[OF assms]
      lex_func_head[unfolded foldl_append] v r
    using lex_func_tail[of c, unfolded foldl_append] by simp
qed

lemma pkgRefs_plain:
  assumes "\<forall>c \<in> set name. isIdentChar c" "\<forall>c \<in> set ty. isIdentChar c"
    and "kw = ''const '' \<or> kw = ''var ''"
  shows "pkgRefs (kw @ name @ '' = '' @ formatValue 16 1 ty bs) = []"
proof -
  let ?t = "if ty = ''string'' then [] else ty"
  have k: "foldl lexStep lexInit kw = lexInit"
    using assms(3) lex_const_open lex_var_open by auto
  have t: "foldl lexStep lexInit ?t = lexInit\<lparr>ident := ?t\<rparr>"
    using lex_ident[of lexInit ?t] assms(2) by simp
  have v: "foldl lexStep lexInit (formatValue 16 1 ty bs) = reset (foldl lexStep lexInit ?t)"
    by (rule lex_formatValue) (simp_all add: t)
  show ?thesis
    unfolding pkgRefs_def lex_def foldl_append k lex_named[OF assms(1)] lex_assign v t
    by (simp add: reset_def)
qed


text \<open>
  C1 (as the code has it): when the identifier and the type name handed to the
  declaration are plain identifiers, the packages that the rendered declaration
  references are exactly the imports collected from declaration and compressor, and the
  import list is this set together with the \<open>-import\<close> flag, which is listed whenever it
  is set, referenced or not.
\<close>

theorem imports_cover_references:
  "(\<forall>c \<in> set name. isIdentChar c) \<and> (\<forall>c \<in> set (selectType f). isIdentChar c) \<longrightarrow>
   set (pkgRefs (FormatDeclare gz (selectDeclaration f) b name (selectType f) (selectCompressor f)))
     = set (collectImports (selectDeclaration f) (selectCompressor f))
   \<and> set (mainImports f) =
       set (pkgRefs (FormatDeclare gz (selectDeclaration f) b name (selectType f) (selectCompressor f)))
       \<union> (if Import f = [] then {} else {Import f})"
proof
  assume a: "(\<forall>c \<in> set name. isIdentChar c) \<and> (\<forall>c \<in> set (selectType f). isIdentChar c)"
  then have n: "\<forall>c \<in> set name. isIdentChar c" and t: "\<forall>c \<in> set (selectType f). isIdentChar c"
    by simp_all
  let ?d = "selectDeclaration f" and ?c = "selectCompressor f"
  have r: "set (pkgRefs (FormatDeclare gz ?d b name (selectType f) ?c)) = set (collectImports ?d ?c)"
  proof (cases ?d)
    case ConstDecl
    have "pkgRefs (''const '' @ name @ '' = '' @ formatValue 16 1 (selectType f) (Encode gz ?c b)) = []"
      by (rule pkgRefs_plain[OF n t]) simp
    then show ?thesis by (simp add: ConstDecl collectImports_def)
  next
    case VarDecl
    have "pkgRefs (''var '' @ name @ '' = '' @ formatValue 16 1 (selectType f) (Encode gz ?c b)) = []"
      by (rule pkgRefs_plain[OF n t]) simp
    then show ?thesis by (simp add: VarDecl collectImports_def)
  next
    case FuncDecl
    then have "selectType f = []"
      by (simp add: selectType_def selectDeclaration_def split: if_splits)
    then show ?thesis
      by (simp only: FuncDecl pkgRefs_func[OF n]) (simp add: collectImports_def)
  qed
  show "set (pkgRefs (FormatDeclare gz ?d b name (selectType f) ?c)) = set (collectImports ?d ?c)
   \<and> set (mainImports f) =
       set (pkgRefs (FormatDeclare gz ?d b name (selectType f) ?c))
       \<union> (if Import f = [] then {} else {Import f})"
    by (simp only: r set_mainImports)
qed

theorem imports_cover_references_witness:
  "set (pkgRefs (FormatDeclare (\<lambda>b. b) (selectDeclaration defaultFlags) [0x68, 0x69] ''hi''
                  (selectType defaultFlags) (selectCompressor defaultFlags)))
     = set (collectImports (selectDeclaration defaultFlags) (selectCompressor defaultFlags))
   \<and> set (mainImports defaultFlags) =
       set (pkgRefs (FormatDeclare (\<lambda>b. b) (selectDeclaration defaultFlags) [0x68, 0x69] ''hi''
                      (selectType defaultFlags) (selectCompressor defaultFlags)))
       \<union> (if Import defaultFlags = [] then {} else {Import defaultFlags})
   \<and> mainImports defaultFlags = [''io'', ''ioutil'', ''strings'']"
proof -
  have h: "(\<forall>c \<in> set ''hi''. isIdentChar c) \<and> (\<forall>c \<in> set (selectType defaultFlags). isIdentChar c)"
    by (simp add: isIdentChar_def selectType_def defaultFlags_def)
  note t = imports_cover_references[where name = "''hi''" and f = defaultFlags
      and gz = "\<lambda>b. b" and b = "[0x68, 0x69]"]
  have v: "mainImports defaultFlags = [''io'', ''ioutil'', ''strings'']" by code_simp
  from t h v show ?thesis by blast
qed

text \<open>
  C1 as the specification words it fails in both directions: \<open>-decl const -import fmt\<close>
  lists \<open>fmt\<close>, which the declaration does not reference, and \<open>-decl var\<close> with
  \<open>-type template.HTML\<close> and no \<open>-import\<close> references \<open>template\<close>, which is not listed.
\<close>

theorem imports_counterexample:
  "mainImports (defaultFlags\<lparr>Decl := ''const'', Import := ''fmt''\<rparr>) = [''fmt'']
   \<and> pkgRefs (FormatDeclare (\<lambda>b. b)
         (selectDeclaration (defaultFlags\<lparr>Decl := ''const'', Import := ''fmt''\<rparr>)) [0x68, 0x69] ''hi''
         (selectType (defaultFlags\<lparr>Decl := ''const'', Import := ''fmt''\<rparr>))
         (selectCompressor (defaultFlags\<lparr>Decl := ''const'', Import := ''fmt''\<rparr>))) = []
   \<and> mainImports (defaultFlags\<lparr>Decl := ''var'', Type := ''template.HTML''\<rparr>) = []
   \<and> pkgRefs (FormatDeclare (\<lambda>b. b)
         (selectDeclaration (defaultFlags\<lparr>Decl := ''var'', Type := ''template.HTML''\<rparr>)) [0x68, 0x69] ''hi''
         (selectType (defaultFlags\<lparr>Decl := ''var'', Type := ''template.HTML''\<rparr>))
         (selectCompressor (defaultFlags\<lparr>Decl := ''var'', Type := ''template.HTML''\<rparr>))) = [''template'']"
  by code_simp

end
